theory Spec2Isabelle
  imports Complex_Main "HOL-Library.AList"
begin

section \<open>The resilient HTTP client (src/utils/http_client.py)\<close>

text \<open>
  Python floats (durations, clock readings) are modelled as reals and Python ints as
  \<open>int\<close>: arithmetic is exact, and no conversion from int to float overflows. The
  constructor arguments of \<open>ResilientHTTPClient\<close>, which no method
  assigns again, form the record \<open>config\<close>; the attributes that the methods mutate
  form the record \<open>client\<close>, passed in and returned updated.
\<close>

record config =
  default_timeout_seconds :: real
  max_retries :: int
  backoff_base_seconds :: real
  backoff_cap_seconds :: real
  circuit_breaker_threshold :: int
  circuit_reset_timeout :: real

record client =
  consecutive_failures :: int
  circuit_open :: bool
  last_failure_time :: real
  request_count :: int
  error_count :: int
  rate_limit_count :: int

text \<open>\<open>__init__\<close> with its default arguments, and the attributes it initialises.\<close>

definition default_config :: config where
  "default_config =
     \<lparr>default_timeout_seconds = 10, max_retries = 5, backoff_base_seconds = 1 / 2,
      backoff_cap_seconds = 8, circuit_breaker_threshold = 5, circuit_reset_timeout = 60\<rparr>"

definition init_client :: client where
  "init_client =
     \<lparr>consecutive_failures = 0, circuit_open = False, last_failure_time = 0,
      request_count = 0, error_count = 0, rate_limit_count = 0\<rparr>"

subsection \<open>The environment\<close>

text \<open>
  The \<open>Retry-After\<close> header of a response has two readers. The \<open>Retry\<close> object
  that \<open>__init__\<close> mounts on the session reads it with urllib3's
  \<open>parse_retry_after\<close>: digits (\<open>^\s*[0-9]+\s*$\<close>) are whole seconds, a date that
  \<open>email.utils.parsedate_tz\<close> accepts means the time left until it, and anything else
  raises \<open>InvalidHeader\<close>. \<open>_sleep_with_backoff\<close> reads it with \<open>float\<close>. A header
  is therefore one of: no header at all; the empty string; digits, with their value; a
  date, with its time stamp; any other string that \<open>float\<close> turns into a finite number
  (such as \<open>2.5\<close> or \<open>-1\<close>), with that number; any other string. The non-finite
  results of \<open>float\<close> (\<open>inf\<close>, \<open>nan\<close>) are outside the model.
\<close>

datatype header = Missing | Blank | Digits nat | HttpDate real | Number real | Garbage

record response =
  status_code :: int
  retry_after_header :: header

text \<open>
  What \<open>response.headers.get("Retry-After")\<close> is to \<open>_sleep_with_backoff\<close>: absent
  (\<open>None\<close> or the empty string, both falsy), a string on which \<open>float\<close> raises
  \<open>ValueError\<close>, or a string that \<open>float\<close> turns into a finite number.
\<close>

datatype retry_after = Absent | Unparsable | Seconds real

definition float_reading :: "header \<Rightarrow> retry_after" where
  "float_reading h =
     (case h of
        Missing \<Rightarrow> Absent
      | Blank \<Rightarrow> Absent
      | Digits n \<Rightarrow> Seconds (real n)
      | HttpDate t \<Rightarrow> Unparsable
      | Number x \<Rightarrow> Seconds x
      | Garbage \<Rightarrow> Unparsable)"

text \<open>
  The exceptions \<open>session.get\<close> raises are told apart only by the two handlers of
  \<open>get\<close>: \<open>requests.Timeout\<close> and \<open>requests.ConnectionError\<close>, or any other
  \<open>requests.RequestException\<close>, among them the \<open>InvalidHeader\<close> that stands for
  urllib3's. A request that fails on the wire is tagged with the exception that
  \<open>session.get\<close> raises for it once the adapter gives up.
\<close>

datatype net_exc = Timeout | ConnectionError | OtherRequestException | InvalidHeader

datatype outcome = Returns response | Raises net_exc

text \<open>
  What \<open>get\<close> can raise: the circuit-open \<open>Exception\<close>, the \<open>HTTPError\<close> of
  \<open>raise_for_status\<close> (with the status it reports), an exception of \<open>session.get\<close>,
  the final \<open>RuntimeError\<close>, and the \<open>ValueError\<close> of \<open>time.sleep\<close>.
\<close>

datatype error =
    CircuitOpenError
  | HTTPError int
  | NetworkError net_exc
  | RuntimeError
  | ValueError

text \<open>
  The world answers everything that leaves the process: the \<open>n\<close>-th request sent to
  the upstream yields \<open>responses n\<close>, a response or a failure (url, headers, parameters
  and timeout only parametrise the request; a response stands for the last one of a
  chain of redirects), the \<open>n\<close>-th call of \<open>random.random\<close> yields \<open>randoms n\<close>, the
  \<open>n\<close>-th call of \<open>time.time\<close> yields \<open>clock n\<close>. The counters say how many requests
  were sent (\<open>requests\<close>), how often \<open>session.get\<close> was called (\<open>attempts\<close>), and
  how many numbers and clock readings were drawn; \<open>sleeps\<close> logs the durations slept,
  oldest first.
\<close>

record world =
  responses :: "nat \<Rightarrow> outcome"
  requests :: nat
  attempts :: nat
  randoms :: "nat \<Rightarrow> real"
  draws :: nat
  clock :: "nat \<Rightarrow> real"
  ticks :: nat
  sleeps :: "real list"

definition wire_send :: "world \<Rightarrow> outcome \<times> world" where
  "wire_send w = (responses w (requests w), w\<lparr>requests := Suc (requests w)\<rparr>)"

definition random_random :: "world \<Rightarrow> real \<times> world" where
  "random_random w = (randoms w (draws w), w\<lparr>draws := Suc (draws w)\<rparr>)"

definition time_time :: "world \<Rightarrow> real \<times> world" where
  "time_time w = (clock w (ticks w), w\<lparr>ticks := Suc (ticks w)\<rparr>)"

text \<open>\<open>time.sleep\<close> raises \<open>ValueError\<close> on a negative duration and sleeps otherwise.\<close>

definition time_sleep :: "real \<Rightarrow> world \<Rightarrow> (error + unit) \<times> world" where
  "time_sleep d w =
     (if d < 0 then (Inl ValueError, w) else (Inr (), w\<lparr>sleeps := sleeps w @ [d]\<rparr>))"

text \<open>\<open>random.uniform(a, b)\<close> is \<open>a + (b - a) * random()\<close>.\<close>

definition random_uniform :: "real \<Rightarrow> real \<Rightarrow> world \<Rightarrow> real \<times> world" where
  "random_uniform a b w = (case random_random w of (r, w1) \<Rightarrow> (a + (b - a) * r, w1))"

text \<open>\<open>Response.raise_for_status\<close> raises \<open>HTTPError\<close> exactly for the statuses 400 to 599.\<close>

definition raises_for_status :: "response \<Rightarrow> bool" where
  "raises_for_status r \<longleftrightarrow> 400 \<le> status_code r \<and> status_code r < 600"

subsection \<open>The session and its adapter\<close>

text \<open>
  \<open>__init__\<close> mounts on the session an \<open>HTTPAdapter\<close> whose retries are
  \<open>Retry(total=max_retries, status_forcelist=[429, 500, 502, 503, 504],
  backoff_factor=backoff_base_seconds, raise_on_status=False)\<close>. One call of
  \<open>session.get\<close> is therefore one run of urllib3's \<open>urlopen\<close> under that object, which
  may send the request several times. What follows is that run, as urllib3 1.26 and 2
  have it with the defaults left alone (\<open>GET\<close> is a retryable method,
  \<open>respect_retry_after_header\<close> is true, the backoff is capped at 120 seconds and has
  no jitter).

  \<open>Retry.is_retry\<close>, while retries are left: the status is on the force list, or the
  response has a truthy \<open>Retry-After\<close> header and its status is 413, 429 or 503.
\<close>

definition has_retry_after :: "response \<Rightarrow> bool" where
  "has_retry_after r \<longleftrightarrow> retry_after_header r \<noteq> Missing \<and> retry_after_header r \<noteq> Blank"

definition is_retry :: "response \<Rightarrow> bool" where
  "is_retry r \<longleftrightarrow>
     status_code r \<in> {429, 500, 502, 503, 504}
     \<or> (has_retry_after r \<and> status_code r \<in> {413, 429, 503})"

text \<open>\<open>Retry.get_retry_after\<close> with \<open>parse_retry_after\<close>: nothing without a header,
  the seconds to wait otherwise, never negative; a date is compared with the clock.\<close>

definition get_retry_after :: "response \<Rightarrow> world \<Rightarrow> (net_exc + real option) \<times> world" where
  "get_retry_after r w =
     (case retry_after_header r of
        Missing \<Rightarrow> (Inr None, w)
      | Digits n \<Rightarrow> (Inr (Some (real n)), w)
      | HttpDate retry_date \<Rightarrow>
          (case time_time w of (now, w1) \<Rightarrow>
             (let seconds = retry_date - now
              in (Inr (Some (if seconds < 0 then 0 else seconds)), w1)))
      | Blank \<Rightarrow> (Inl InvalidHeader, w)
      | Number x \<Rightarrow> (Inl InvalidHeader, w)
      | Garbage \<Rightarrow> (Inl InvalidHeader, w))"

text \<open>\<open>Retry.get_backoff_time\<close> and \<open>Retry._sleep_backoff\<close>; the argument is the
  length of the history, the number of retries so far in this run.\<close>

definition get_backoff_time :: "config \<Rightarrow> nat \<Rightarrow> real" where
  "get_backoff_time cfg consecutive_errors_len =
     (if consecutive_errors_len \<le> 1 then 0
      else min 120 (backoff_base_seconds cfg * 2 ^ (consecutive_errors_len - 1)))"

definition sleep_backoff :: "config \<Rightarrow> nat \<Rightarrow> world \<Rightarrow> world" where
  "sleep_backoff cfg consecutive_errors_len w =
     (let backoff = get_backoff_time cfg consecutive_errors_len
      in if backoff \<le> 0 then w else snd (time_sleep backoff w))"

text \<open>\<open>Retry.sleep(response)\<close>: the time the header asks for when that is not zero,
  the backoff otherwise. Both durations are positive where they are slept.\<close>

definition retry_sleep :: "config \<Rightarrow> nat \<Rightarrow> response \<Rightarrow> world \<Rightarrow> (net_exc + unit) \<times> world" where
  "retry_sleep cfg consecutive_errors_len r w =
     (case get_retry_after r w of
        (Inl e, w1) \<Rightarrow> (Inl e, w1)
      | (Inr retry_after, w1) \<Rightarrow>
          (case retry_after of
             Some seconds \<Rightarrow>
               if seconds \<noteq> 0 then (Inr (), snd (time_sleep seconds w1))
               else (Inr (), sleep_backoff cfg consecutive_errors_len w1)
           | None \<Rightarrow> (Inr (), sleep_backoff cfg consecutive_errors_len w1)))"

text \<open>
  \<open>urlopen\<close> with \<open>left\<close> retries left and a history of length \<open>n\<close>. With none left,
  \<open>Retry.increment\<close> raises \<open>MaxRetryError\<close>: a failure is raised to the caller, and a
  response is handed back whatever \<open>is_retry\<close> says, since \<open>raise_on_status\<close> is false.
  Otherwise a failure is retried after the backoff, and a response for which
  \<open>is_retry\<close> holds is retried after \<open>Retry.sleep(response)\<close>, whose \<open>InvalidHeader\<close>
  ends the run.
\<close>

fun urlopen :: "config \<Rightarrow> nat \<Rightarrow> nat \<Rightarrow> world \<Rightarrow> outcome \<times> world" where
  "urlopen cfg 0 n w = wire_send w"
| "urlopen cfg (Suc left) n w =
     (case wire_send w of
        (Raises e, w1) \<Rightarrow> urlopen cfg left (Suc n) (sleep_backoff cfg (Suc n) w1)
      | (Returns r, w1) \<Rightarrow>
          if is_retry r
          then (case retry_sleep cfg (Suc n) r w1 of
                  (Inl e, w2) \<Rightarrow> (Raises e, w2)
                | (Inr u, w2) \<Rightarrow> urlopen cfg left (Suc n) w2)
          else (Returns r, w1))"

text \<open>One call of \<open>self.session.get\<close>: a fresh run with \<open>total = max_retries\<close>, which
  allows no retry when that is not positive.\<close>

definition session_get :: "config \<Rightarrow> world \<Rightarrow> outcome \<times> world" where
  "session_get cfg w =
     urlopen cfg (nat (max_retries cfg)) 0 (w\<lparr>attempts := Suc (attempts w)\<rparr>)"

subsection \<open>The circuit breaker\<close>

definition is_circuit_open :: "config \<Rightarrow> client \<Rightarrow> world \<Rightarrow> bool \<times> client \<times> world" where
  "is_circuit_open cfg s w =
     (if \<not> circuit_open s then (False, s, w)
      else
        (case time_time w of (t, w1) \<Rightarrow>
           if t - last_failure_time s > circuit_reset_timeout cfg
           then (False, s\<lparr>circuit_open := False, consecutive_failures := 0\<rparr>, w1)
           else (True, s, w1)))"

definition record_failure :: "config \<Rightarrow> client \<Rightarrow> world \<Rightarrow> client \<times> world" where
  "record_failure cfg s w =
     (let s1 = s\<lparr>consecutive_failures := consecutive_failures s + 1\<rparr>;
          s2 = s1\<lparr>error_count := error_count s1 + 1\<rparr>
      in case time_time w of (t, w1) \<Rightarrow>
           (let s3 = s2\<lparr>last_failure_time := t\<rparr>
            in if consecutive_failures s3 \<ge> circuit_breaker_threshold cfg
               then (s3\<lparr>circuit_open := True\<rparr>, w1)
               else (s3, w1)))"

definition record_success :: "client \<Rightarrow> client" where
  "record_success s =
     (let s1 = s\<lparr>consecutive_failures := 0\<rparr>
      in if circuit_open s1 then s1\<lparr>circuit_open := False\<rparr> else s1)"

subsection \<open>Backoff\<close>

text \<open>The part of \<open>_sleep_with_backoff\<close> after the \<open>try\<close> block.\<close>

definition exponential_backoff :: "config \<Rightarrow> nat \<Rightarrow> world \<Rightarrow> (error + unit) \<times> world" where
  "exponential_backoff cfg attempt_index w =
     (let base_delay =
            min (backoff_base_seconds cfg * 2 ^ attempt_index) (backoff_cap_seconds cfg)
      in case random_uniform 0 (backoff_base_seconds cfg) w of (jitter, w1) \<Rightarrow>
           (let sleep_time = base_delay + jitter in time_sleep sleep_time w1))"

text \<open>
  The \<open>try\<close> block runs only for a truthy header. Its handler catches the \<open>ValueError\<close>
  of \<open>float\<close> and, being around \<open>time.sleep\<close> as well, the \<open>ValueError\<close> of a negative
  sleep; after either, control falls through to the exponential formula.
\<close>

definition sleep_with_backoff ::
  "config \<Rightarrow> nat \<Rightarrow> retry_after \<Rightarrow> world \<Rightarrow> (error + unit) \<times> world" where
  "sleep_with_backoff cfg attempt_index hdr w =
     (case hdr of
        Absent \<Rightarrow> exponential_backoff cfg attempt_index w
      | Unparsable \<Rightarrow> exponential_backoff cfg attempt_index w
      | Seconds sleep_seconds \<Rightarrow>
          (let sleep_time = min sleep_seconds (backoff_cap_seconds cfg)
           in case time_sleep sleep_time w of
                (Inr u, w1) \<Rightarrow> (Inr (), w1)
              | (Inl e, w1) \<Rightarrow> exponential_backoff cfg attempt_index w))"

subsection \<open>The request loop\<close>

text \<open>How one iteration of the \<open>for\<close> loop of \<open>get\<close> ends: with \<open>continue\<close>, or by
  leaving \<open>get\<close> (a \<open>return\<close> or an exception that no handler catches).\<close>

datatype control =
    Continue client world "error option"
  | Finished "(error + response) \<times> client \<times> world"

text \<open>After a sleep inside the loop: a \<open>ValueError\<close> of the sleep is caught by neither
  handler and leaves \<open>get\<close>; otherwise the loop continues.\<close>

definition sleep_then_continue ::
  "(error + unit) \<times> world \<Rightarrow> client \<Rightarrow> error option \<Rightarrow> control" where
  "sleep_then_continue slept s last_exc =
     (case slept of
        (Inl e, w1) \<Rightarrow> Finished (Inl e, s, w1)
      | (Inr u, w1) \<Rightarrow> Continue s w1 last_exc)"

text \<open>The two \<open>except\<close> clauses of \<open>get\<close> have the same body (they differ in the log
  line only): remember the exception, retry after a backoff while attempts remain,
  otherwise record a failure and re-raise.\<close>

definition handle_request_exception ::
  "config \<Rightarrow> nat \<Rightarrow> error \<Rightarrow> client \<Rightarrow> world \<Rightarrow> control" where
  "handle_request_exception cfg attempt exc s w =
     (if int attempt < max_retries cfg
      then sleep_then_continue (sleep_with_backoff cfg attempt Absent w) s (Some exc)
      else (case record_failure cfg s w of (s1, w1) \<Rightarrow> Finished (Inl exc, s1, w1)))"

text \<open>\<open>response.raise_for_status(); return response\<close> inside the \<open>try\<close>: the
  \<open>HTTPError\<close> is a \<open>RequestException\<close>, so the second handler catches it.\<close>

definition raise_for_status_or_return ::
  "config \<Rightarrow> nat \<Rightarrow> response \<Rightarrow> client \<Rightarrow> world \<Rightarrow> control" where
  "raise_for_status_or_return cfg attempt r s w =
     (if raises_for_status r
      then handle_request_exception cfg attempt (HTTPError (status_code r)) s w
      else Finished (Inr r, s, w))"

definition attempt_body ::
  "config \<Rightarrow> nat \<Rightarrow> client \<Rightarrow> world \<Rightarrow> error option \<Rightarrow> control" where
  "attempt_body cfg attempt s w last_exc =
     (case session_get cfg w of
        (Raises e, w1) \<Rightarrow> handle_request_exception cfg attempt (NetworkError e) s w1
      | (Returns r, w1) \<Rightarrow>
          if 200 \<le> status_code r \<and> status_code r < 300
          then Finished (Inr r, record_success s, w1)
          else
            (let s1 = (if status_code r = 429
                       then s\<lparr>rate_limit_count := rate_limit_count s + 1\<rparr> else s)
             in if status_code r = 429 \<and> int attempt < max_retries cfg
                then sleep_then_continue
                       (sleep_with_backoff cfg attempt (float_reading (retry_after_header r)) w1)
                       s1 last_exc
                else if status_code r \<in> {500, 502, 503, 504} \<and> int attempt < max_retries cfg
                then sleep_then_continue (sleep_with_backoff cfg attempt Absent w1) s1 last_exc
                else if 400 \<le> status_code r \<and> status_code r < 500
                then (case record_failure cfg s1 w1 of (s2, w2) \<Rightarrow>
                        raise_for_status_or_return cfg attempt r s2 w2)
                else raise_for_status_or_return cfg attempt r s1 w1))"

text \<open>\<open>range(n)\<close> for a Python int \<open>n\<close>: empty when \<open>n\<close> is not positive.\<close>

definition py_range :: "int \<Rightarrow> nat list" where
  "py_range n = [0..<nat n]"

text \<open>The \<open>for\<close> loop over the attempts that are left, and the code after the loop.\<close>

fun get_loop ::
  "config \<Rightarrow> nat list \<Rightarrow> client \<Rightarrow> world \<Rightarrow> error option \<Rightarrow> (error + response) \<times> client \<times> world"
  where
  "get_loop cfg [] s w last_exc =
     (case record_failure cfg s w of (s1, w1) \<Rightarrow>
        (case last_exc of
           Some e \<Rightarrow> (Inl e, s1, w1)
         | None \<Rightarrow> (Inl RuntimeError, s1, w1)))"
| "get_loop cfg (attempt # rest) s w last_exc =
     (case attempt_body cfg attempt s w last_exc of
        Continue s1 w1 last_exc1 \<Rightarrow> get_loop cfg rest s1 w1 last_exc1
      | Finished res \<Rightarrow> res)"

definition get :: "config \<Rightarrow> client \<Rightarrow> world \<Rightarrow> (error + response) \<times> client \<times> world" where
  "get cfg s w =
     (case is_circuit_open cfg s w of
        (True, s1, w1) \<Rightarrow> (Inl CircuitOpenError, s1, w1)
      | (False, s1, w1) \<Rightarrow>
          get_loop cfg (py_range (max_retries cfg + 1))
            (s1\<lparr>request_count := request_count s1 + 1\<rparr>) w1 None)"

subsection \<open>Runs of several calls\<close>

text \<open>The first iterations of the \<open>for\<close> loop, over the attempts given: where the
  loop stands after them, or how \<open>get\<close> was left during them.\<close>

fun run_attempts ::
  "config \<Rightarrow> nat list \<Rightarrow> client \<Rightarrow> world \<Rightarrow> error option \<Rightarrow> control" where
  "run_attempts cfg [] s w last_exc = Continue s w last_exc"
| "run_attempts cfg (attempt # rest) s w last_exc =
     (case attempt_body cfg attempt s w last_exc of
        Continue s1 w1 last_exc1 \<Rightarrow> run_attempts cfg rest s1 w1 last_exc1
      | Finished res \<Rightarrow> Finished res)"

text \<open>What the call of \<open>session.get\<close> number \<open>i\<close> from now (counting from 0) returns
  or raises, and the world after it. Nothing but \<open>session.get\<close> sends requests, so what
  the client does between two calls has no part in it.\<close>

fun nth_session_get :: "config \<Rightarrow> world \<Rightarrow> nat \<Rightarrow> outcome \<times> world" where
  "nth_session_get cfg w 0 = session_get cfg w"
| "nth_session_get cfg w (Suc i) = nth_session_get cfg (snd (session_get cfg w)) i"

text \<open>\<open>n\<close> calls of \<open>_record_failure\<close> in a row: \<open>n\<close> consecutive recorded failures.\<close>

fun record_failures :: "config \<Rightarrow> nat \<Rightarrow> client \<Rightarrow> world \<Rightarrow> client \<times> world" where
  "record_failures cfg 0 s w = (s, w)"
| "record_failures cfg (Suc n) s w =
     (case record_failure cfg s w of (s1, w1) \<Rightarrow> record_failures cfg n s1 w1)"

text \<open>\<open>n\<close> calls of \<open>get\<close> one after the other, with what each of them returned or raised.\<close>

fun get_many ::
  "config \<Rightarrow> nat \<Rightarrow> client \<Rightarrow> world \<Rightarrow> (error + response) list \<times> client \<times> world" where
  "get_many cfg 0 s w = ([], s, w)"
| "get_many cfg (Suc n) s w =
     (case get cfg s w of (res, s1, w1) \<Rightarrow>
        (case get_many cfg n s1 w1 of (ress, s2, w2) \<Rightarrow> (res # ress, s2, w2)))"

section \<open>The TTL cache (src/utils/cache_service.py)\<close>

text \<open>
  The dictionary \<open>_cache\<close> is an association list in insertion order, the order of a
  Python dict; a Python dict holds every key once, which is \<open>distinct (map fst al)\<close>.
  Every method runs under the lock; the clock readings of one call are taken to be one
  instant, passed as \<open>now\<close>. The methods \<open>get\<close>, \<open>set\<close>, \<open>delete\<close> and \<open>clear\<close> are
  \<open>cache_get\<close>, \<open>cache_set\<close>, \<open>cache_delete\<close> and \<open>cache_clear\<close> here, and the entry's
  key \<open>'value'\<close> is the field \<open>stored\<close>.
\<close>

record 'v entry =
  stored :: 'v
  expires_at :: real
  created_at :: real

record 'v InMemoryCache =
  default_ttl_seconds :: int
  cache :: "(string \<times> 'v entry) list"
  hits :: int
  misses :: int
  sets :: int
  evictions :: int

definition new_cache :: "int \<Rightarrow> 'v InMemoryCache" where
  "new_cache ttl =
     \<lparr>default_ttl_seconds = ttl, cache = [], hits = 0, misses = 0, sets = 0, evictions = 0\<rparr>"

definition is_expired :: "real \<Rightarrow> 'v entry \<Rightarrow> bool" where
  "is_expired now e \<longleftrightarrow> now > expires_at e"

text \<open>The second loop of \<open>_cleanup_expired\<close>: \<open>del self._cache[key]\<close> and one eviction
  for every collected key.\<close>

definition evict :: "string \<Rightarrow> 'v InMemoryCache \<Rightarrow> 'v InMemoryCache" where
  "evict key c = c\<lparr>cache := AList.delete key (cache c), evictions := evictions c + 1\<rparr>"

definition cleanup_expired :: "real \<Rightarrow> 'v InMemoryCache \<Rightarrow> 'v InMemoryCache" where
  "cleanup_expired now c =
     (let expired_keys = map fst (filter (\<lambda>(key, e). is_expired now e) (cache c))
      in fold evict expired_keys c)"

definition cache_get :: "real \<Rightarrow> string \<Rightarrow> 'v InMemoryCache \<Rightarrow> 'v option \<times> 'v InMemoryCache" where
  "cache_get now key c =
     (let c1 = cleanup_expired now c
      in case map_of (cache c1) key of
           None \<Rightarrow> (None, c1\<lparr>misses := misses c1 + 1\<rparr>)
         | Some e \<Rightarrow>
             if is_expired now e then (None, c1\<lparr>misses := misses c1 + 1\<rparr>)
             else (Some (stored e), c1\<lparr>hits := hits c1 + 1\<rparr>))"

text \<open>\<open>ttl_seconds or self.default_ttl_seconds\<close>: the default replaces every falsy
  argument, \<open>None\<close> and \<open>0\<close> alike.\<close>

definition ttl_or_default :: "int option \<Rightarrow> 'v InMemoryCache \<Rightarrow> int" where
  "ttl_or_default ttl_seconds c =
     (case ttl_seconds of
        None \<Rightarrow> default_ttl_seconds c
      | Some t \<Rightarrow> if t = 0 then default_ttl_seconds c else t)"

definition cache_set ::
  "real \<Rightarrow> string \<Rightarrow> 'v \<Rightarrow> int option \<Rightarrow> 'v InMemoryCache \<Rightarrow> 'v InMemoryCache" where
  "cache_set now key v ttl_seconds c =
     (let ttl = ttl_or_default ttl_seconds c;
          expires = now + real_of_int ttl
      in c\<lparr>cache := AList.update key
                        \<lparr>stored = v, expires_at = expires, created_at = now\<rparr> (cache c),
            sets := sets c + 1\<rparr>)"

definition cache_delete :: "string \<Rightarrow> 'v InMemoryCache \<Rightarrow> bool \<times> 'v InMemoryCache" where
  "cache_delete key c =
     (if key \<in> fst ` set (cache c)
      then (True, c\<lparr>cache := AList.delete key (cache c)\<rparr>)
      else (False, c))"

definition cache_clear :: "'v InMemoryCache \<Rightarrow> 'v InMemoryCache" where
  "cache_clear c = c\<lparr>cache := []\<rparr>"

text \<open>Sweeps at the given instants, one after the other.\<close>

definition sweeps_at :: "real list \<Rightarrow> 'v InMemoryCache \<Rightarrow> 'v InMemoryCache" where
  "sweeps_at ts c = fold cleanup_expired ts c"

subsection \<open>The namespaced facade\<close>

record 'v SmartCache =
  player_cache :: "'v InMemoryCache"
  stats_cache :: "'v InMemoryCache"
  market_cache :: "'v InMemoryCache"
  league_cache :: "'v InMemoryCache"
  search_cache :: "'v InMemoryCache"

definition new_smart_cache :: "'v SmartCache" where
  "new_smart_cache =
     \<lparr>player_cache = new_cache 1800, stats_cache = new_cache 3600,
      market_cache = new_cache 7200, league_cache = new_cache 86400,
      search_cache = new_cache 900\<rparr>"

text \<open>\<open>str\<close> of a Python int: its decimal digits, with a minus sign when negative.\<close>

function str_nat :: "nat \<Rightarrow> string" where
  "str_nat n = (if n < 10 then [char_of (48 + n)] else str_nat (n div 10) @ [char_of (48 + n mod 10)])"
  by pat_completeness auto
termination
  by (relation "measure (\<lambda>n. n)") auto

definition str_int :: "int \<Rightarrow> string" where
  "str_int i = (if i < 0 then CHR ''-'' # str_nat (nat (- i)) else str_nat (nat i))"

fun join :: "string \<Rightarrow> string list \<Rightarrow> string" where
  "join sep [] = []"
| "join sep [x] = x"
| "join sep (x # y # ys) = x @ sep @ join sep (y # ys)"

text \<open>\<open>_make_key\<close>, with the arguments already turned into strings by \<open>str\<close>. The digest
  \<open>hashlib.md5(...).hexdigest()\<close> is the parameter \<open>md5_hexdigest\<close>.\<close>

definition make_key :: "(string \<Rightarrow> string) \<Rightarrow> string \<Rightarrow> string list \<Rightarrow> string" where
  "make_key md5_hexdigest prefix args = md5_hexdigest (prefix @ '':'' @ join '':'' args)"

definition set_player ::
  "(string \<Rightarrow> string) \<Rightarrow> real \<Rightarrow> int \<Rightarrow> 'v \<Rightarrow> 'v SmartCache \<Rightarrow> 'v SmartCache" where
  "set_player md5_hexdigest now player_id data sc =
     sc\<lparr>player_cache :=
          cache_set now (make_key md5_hexdigest ''player'' [str_int player_id]) data None
            (player_cache sc)\<rparr>"

definition invalidate_player :: "(string \<Rightarrow> string) \<Rightarrow> int \<Rightarrow> 'v SmartCache \<Rightarrow> 'v SmartCache" where
  "invalidate_player md5_hexdigest player_id sc =
     sc\<lparr>player_cache :=
          snd (cache_delete (make_key md5_hexdigest ''player'' [str_int player_id])
                 (player_cache sc))\<rparr>"

section \<open>Concrete inputs\<close>

text \<open>A response with the given status and no \<open>Retry-After\<close> header.\<close>

definition plain :: "int \<Rightarrow> outcome" where
  "plain c = Returns \<lparr>status_code = c, retry_after_header = Missing\<rparr>"

text \<open>A 429 response with the given \<open>Retry-After\<close> header.\<close>

definition rate_limited :: "header \<Rightarrow> outcome" where
  "rate_limited h = Returns \<lparr>status_code = 429, retry_after_header = h\<rparr>"

text \<open>A world that answers the first requests with \<open>outs\<close> and every later one with
  \<open>out\<close>, draws \<open>1/2\<close> every time, and whose clock advances by \<open>step\<close> seconds
  from one reading to the next.\<close>

definition scripted_world :: "outcome list \<Rightarrow> outcome \<Rightarrow> real \<Rightarrow> world" where
  "scripted_world outs out step =
     \<lparr>responses = (\<lambda>n. if n < length outs then outs ! n else out), requests = 0,
      attempts = 0,
      randoms = (\<lambda>n. 1 / 2), draws = 0, clock = (\<lambda>n. step * real n), ticks = 0,
      sleeps = []\<rparr>"

text \<open>A client with one retry, and otherwise the defaults.\<close>

definition one_retry_config :: config where
  "one_retry_config = default_config\<lparr>max_retries := 1\<rparr>"


text \<open>The client and the world after five recorded failures in a row, starting from a
  fresh client with the default configuration.\<close>

definition five_failures :: "real \<Rightarrow> client \<times> world" where
  "five_failures step =
     record_failures default_config 5 init_client (scripted_world [] (plain 200) step)"

section \<open>Auxiliary predicates\<close>

text \<open>One iteration of the loop makes exactly one call of \<open>session.get\<close> (\<open>n\<close> counts
  the calls made before it), and neither remembers nor raises the circuit-open error.\<close>

definition step_ok :: "nat \<Rightarrow> error option \<Rightarrow> control \<Rightarrow> bool" where
  "step_ok n le c =
     (case c of
        Continue s1 w1 le1 \<Rightarrow>
          attempts w1 = Suc n \<and> (le1 = le \<or> (\<exists>e. le1 = Some e \<and> e \<noteq> CircuitOpenError))
      | Finished (r, s1, w1) \<Rightarrow> attempts w1 = Suc n \<and> r \<noteq> Inl CircuitOpenError)"

text \<open>The outcomes of \<open>session.get\<close> after which an attempt that is not the last one
  is retried without a failure being recorded: an exception, a 429 or a 5xx response.\<close>

definition retried_unrecorded :: "outcome \<Rightarrow> bool" where
  "retried_unrecorded out =
     (case out of
        Raises e \<Rightarrow> True
      | Returns r \<Rightarrow> status_code r = 429 \<or> (500 \<le> status_code r \<and> status_code r < 600))"

text \<open>Two worlds in which the same requests have been sent and the same answers are
  to come.\<close>

definition same_wire :: "world \<Rightarrow> world \<Rightarrow> bool" where
  "same_wire w w' \<longleftrightarrow> responses w' = responses w \<and> requests w' = requests w"

section \<open>Properties of the resilient client\<close>

subsection \<open>Sleeping and recording\<close>

lemma time_sleep_ok: "0 \<le> d \<Longrightarrow> time_sleep d w = (Inr (), w\<lparr>sleeps := sleeps w @ [d]\<rparr>)"
  by (simp add: time_sleep_def)

lemma exponential_backoff_ok:
  assumes "0 \<le> backoff_base_seconds cfg" and "0 \<le> backoff_cap_seconds cfg"
    and "0 \<le> randoms w (draws w)"
  shows "exponential_backoff cfg a w =
           (Inr (), w\<lparr>draws := Suc (draws w),
                       sleeps := sleeps w @
                         [min (backoff_base_seconds cfg * 2 ^ a) (backoff_cap_seconds cfg)
                          + backoff_base_seconds cfg * randoms w (draws w)]\<rparr>)"
proof -
  have "0 \<le> min (backoff_base_seconds cfg * 2 ^ a) (backoff_cap_seconds cfg)"
    using assms(1,2) by simp
  moreover have "0 \<le> backoff_base_seconds cfg * randoms w (draws w)"
    using assms(1,3) by simp
  ultimately have "\<not> min (backoff_base_seconds cfg * 2 ^ a) (backoff_cap_seconds cfg)
      + backoff_base_seconds cfg * randoms w (draws w) < 0"
    by linarith
  then show ?thesis
    by (simp add: exponential_backoff_def random_uniform_def random_random_def time_sleep_def
        Let_def)
qed

lemma sleep_with_backoff_ok:
  assumes "0 \<le> backoff_base_seconds cfg" and "0 \<le> backoff_cap_seconds cfg"
    and "\<forall>n. 0 \<le> randoms w n"
  shows "\<exists>w'. sleep_with_backoff cfg a h w = (Inr (), w') \<and> responses w' = responses w
            \<and> requests w' = requests w \<and> attempts w' = attempts w \<and> randoms w' = randoms w"
proof -
  have r: "0 \<le> randoms w (draws w)" using assms(3) by simp
  show ?thesis
    by (cases h)
      (simp_all add: sleep_with_backoff_def exponential_backoff_ok [OF assms(1,2) r]
        time_sleep_def Let_def)
qed


subsection \<open>The adapter\<close>

lemma sleep_backoff_frame:
  "responses (sleep_backoff cfg n w) = responses w
   \<and> requests (sleep_backoff cfg n w) = requests w
   \<and> attempts (sleep_backoff cfg n w) = attempts w
   \<and> randoms (sleep_backoff cfg n w) = randoms w"
  by (simp add: sleep_backoff_def time_sleep_def Let_def)

lemma retry_sleep_frame:
  "responses (snd (retry_sleep cfg n r w)) = responses w
   \<and> requests (snd (retry_sleep cfg n r w)) = requests w
   \<and> attempts (snd (retry_sleep cfg n r w)) = attempts w
   \<and> randoms (snd (retry_sleep cfg n r w)) = randoms w"
  by (cases "retry_after_header r")
    (simp_all add: retry_sleep_def get_retry_after_def time_time_def time_sleep_def
      sleep_backoff_frame Let_def)

lemma urlopen_frame:
  "responses (snd (urlopen cfg left n w)) = responses w
   \<and> attempts (snd (urlopen cfg left n w)) = attempts w
   \<and> randoms (snd (urlopen cfg left n w)) = randoms w"
proof (induction left arbitrary: n w)
  case 0
  show ?case by (simp add: wire_send_def)
next
  case (Suc left)
  let ?w1 = "w\<lparr>requests := Suc (requests w)\<rparr>"
  show ?case
  proof (cases "responses w (requests w)")
    case (Raises e)
    then show ?thesis
      using Suc.IH [of "Suc n" "sleep_backoff cfg (Suc n) ?w1"]
      by (simp add: wire_send_def sleep_backoff_frame)
  next
    case (Returns r)
    show ?thesis
    proof (cases "retry_sleep cfg (Suc n) r ?w1")
      case (Pair res w2)
      then have f: "responses w2 = responses w" "attempts w2 = attempts w"
        "randoms w2 = randoms w"
        using retry_sleep_frame [of cfg "Suc n" r ?w1] by simp_all
      show ?thesis
        using Returns Pair f Suc.IH [of "Suc n" w2]
        by (cases res) (simp_all add: wire_send_def)
    qed
  qed
qed

lemma session_get_frame:
  "responses (snd (session_get cfg w)) = responses w
   \<and> attempts (snd (session_get cfg w)) = Suc (attempts w)
   \<and> randoms (snd (session_get cfg w)) = randoms w"
  using urlopen_frame [of cfg "nat (max_retries cfg)" 0 "w\<lparr>attempts := Suc (attempts w)\<rparr>"]
  by (simp add: session_get_def)

subsection \<open>One iteration of the loop\<close>

lemma sleep_with_backoff_frame:
  "attempts (snd (sleep_with_backoff cfg a h w)) = attempts w
   \<and> fst (sleep_with_backoff cfg a h w) \<noteq> Inl CircuitOpenError"
  by (cases h)
    (simp_all add: sleep_with_backoff_def exponential_backoff_def random_uniform_def
      random_random_def time_sleep_def Let_def)

lemma record_failure_attempts: "attempts (snd (record_failure cfg s w)) = attempts w"
  by (simp add: record_failure_def time_time_def Let_def)

lemma sleep_then_continue_ok:
  assumes "attempts w = Suc n" and "le1 = le \<or> (\<exists>e. le1 = Some e \<and> e \<noteq> CircuitOpenError)"
  shows "step_ok n le (sleep_then_continue (sleep_with_backoff cfg a h w) s le1)"
  using assms sleep_with_backoff_frame [of cfg a h w]
  by (cases "sleep_with_backoff cfg a h w")
    (auto simp: step_ok_def sleep_then_continue_def split: sum.splits)

lemma handle_request_exception_ok:
  assumes "attempts w = Suc n" and "e \<noteq> CircuitOpenError"
  shows "step_ok n le (handle_request_exception cfg a e s w)"
proof (cases "int a < max_retries cfg")
  case True
  then show ?thesis
    using sleep_then_continue_ok [OF assms(1), of "Some e" le cfg a Absent s] assms(2)
    by (simp add: handle_request_exception_def)
next
  case False
  then show ?thesis
    using record_failure_attempts [of cfg s w] assms
    by (cases "record_failure cfg s w") (simp add: handle_request_exception_def step_ok_def)
qed

lemma raise_for_status_or_return_ok:
  assumes "attempts w = Suc n"
  shows "step_ok n le (raise_for_status_or_return cfg a r s w)"
  using handle_request_exception_ok [OF assms, of "HTTPError (status_code r)" le cfg a s] assms
  by (simp add: raise_for_status_or_return_def step_ok_def)

lemma attempt_body_ok: "step_ok (attempts w) le (attempt_body cfg a s w le)"
proof -
  obtain out w1 where g: "session_get cfg w = (out, w1)"
    by (cases "session_get cfg w")
  then have a: "attempts w1 = Suc (attempts w)"
    using session_get_frame [of cfg w] by simp
  show ?thesis
  proof (cases out)
    case (Raises e)
    then show ?thesis
      using g handle_request_exception_ok [OF a, of "NetworkError e" le cfg a s]
      by (simp add: attempt_body_def)
  next
    case (Returns r)
    have rf: "attempts (snd (record_failure cfg s' w1)) = Suc (attempts w)" for s'
      using a by (simp add: record_failure_attempts)
    have h4: "step_ok (attempts w) le (case record_failure cfg s' w1 of
                 (s2, w2) \<Rightarrow> raise_for_status_or_return cfg a r s2 w2)" for s'
    proof (cases "record_failure cfg s' w1")
      case (Pair s2 w2)
      then have "attempts w2 = Suc (attempts w)" using rf [of s'] by simp
      from raise_for_status_or_return_ok [OF this, of le cfg a r s2]
      show ?thesis using Pair by simp
    qed
    show ?thesis
      using Returns g a
        sleep_then_continue_ok [OF a, of le le cfg a _ _]
        raise_for_status_or_return_ok [OF a, of le cfg a r]
        h4
      by (simp add: attempt_body_def Let_def step_ok_def)
  qed
qed

lemma get_loop_attempts:
  "le = None \<or> (\<exists>e. le = Some e \<and> e \<noteq> CircuitOpenError) \<Longrightarrow>
   fst (get_loop cfg xs s w le) \<noteq> Inl CircuitOpenError
   \<and> attempts w + (if xs = [] then 0 else 1) \<le> attempts (snd (snd (get_loop cfg xs s w le)))"
proof (induction xs arbitrary: s w le)
  case Nil
  then show ?case
    using record_failure_attempts [of cfg s w]
    by (cases "record_failure cfg s w") (auto split: option.splits)
next
  case (Cons a xs)
  show ?case
  proof (cases "attempt_body cfg a s w le")
    case (Continue s1 w1 le1)
    with attempt_body_ok [of w le cfg a s]
    have w1: "attempts w1 = Suc (attempts w)"
      and le1: "le1 = None \<or> (\<exists>e. le1 = Some e \<and> e \<noteq> CircuitOpenError)"
      using Cons.prems by (auto simp: step_ok_def)
    from Cons.IH [OF le1, of s1 w1] w1 Continue show ?thesis
      by (simp split: if_splits)
  next
    case (Finished res)
    with attempt_body_ok [of w le cfg a s] show ?thesis
      by (cases res) (auto simp: step_ok_def)
  qed
qed

subsection \<open>What the wire decides\<close>

lemma retry_sleep_result:
  "fst (retry_sleep cfg n r w) =
     (case retry_after_header r of
        Blank \<Rightarrow> Inl InvalidHeader
      | Number x \<Rightarrow> Inl InvalidHeader
      | Garbage \<Rightarrow> Inl InvalidHeader
      | _ \<Rightarrow> Inr ())"
  by (cases "retry_after_header r")
    (simp_all add: retry_sleep_def get_retry_after_def time_time_def Let_def)

lemma retry_sleep_same_wire:
  "same_wire w w' \<Longrightarrow>
   fst (retry_sleep cfg n r w') = fst (retry_sleep cfg n r w)
   \<and> same_wire (snd (retry_sleep cfg n r w)) (snd (retry_sleep cfg n r w'))"
  using retry_sleep_frame [of cfg n r w] retry_sleep_frame [of cfg n r w']
  by (simp add: same_wire_def retry_sleep_result)

lemma sleep_backoff_same_wire:
  "same_wire w w' \<Longrightarrow> same_wire (sleep_backoff cfg n w) (sleep_backoff cfg n w')"
  by (simp add: same_wire_def sleep_backoff_frame)

lemma wire_send_same_wire:
  "same_wire w w' \<Longrightarrow>
   fst (wire_send w') = fst (wire_send w) \<and> same_wire (snd (wire_send w)) (snd (wire_send w'))"
  by (simp add: same_wire_def wire_send_def)

lemma urlopen_same_wire:
  "same_wire w w' \<Longrightarrow>
   fst (urlopen cfg left n w') = fst (urlopen cfg left n w)
   \<and> same_wire (snd (urlopen cfg left n w)) (snd (urlopen cfg left n w'))"
proof (induction left arbitrary: n w w')
  case 0
  then show ?case by (simp add: wire_send_same_wire)
next
  case (Suc left)
  obtain out w1 where s: "wire_send w = (out, w1)" by (cases "wire_send w")
  obtain out' w1' where s': "wire_send w' = (out', w1')" by (cases "wire_send w'")
  from wire_send_same_wire [OF Suc.prems] s s'
  have o: "out' = out" and w1: "same_wire w1 w1'" by simp_all
  show ?case
  proof (cases out)
    case (Raises e)
    from Suc.IH [OF sleep_backoff_same_wire [OF w1, of cfg "Suc n"], of "Suc n"]
    show ?thesis using Raises s s' o by simp
  next
    case (Returns r)
    obtain res w2 where t: "retry_sleep cfg (Suc n) r w1 = (res, w2)"
      by (cases "retry_sleep cfg (Suc n) r w1")
    obtain res' w2' where t': "retry_sleep cfg (Suc n) r w1' = (res', w2')"
      by (cases "retry_sleep cfg (Suc n) r w1'")
    from retry_sleep_same_wire [OF w1, of cfg "Suc n" r] t t'
    have r: "res' = res" and w2: "same_wire w2 w2'" by simp_all
    show ?thesis
      using Returns s s' o t t' r w1 w2 Suc.IH [OF w2, of "Suc n"]
      by (cases res) simp_all
  qed
qed

lemma session_get_same_wire:
  assumes "same_wire w w'"
  shows "fst (session_get cfg w') = fst (session_get cfg w)
       \<and> same_wire (snd (session_get cfg w)) (snd (session_get cfg w'))"
proof -
  have "same_wire (w\<lparr>attempts := Suc (attempts w)\<rparr>) (w'\<lparr>attempts := Suc (attempts w')\<rparr>)"
    using assms by (simp add: same_wire_def)
  from urlopen_same_wire [OF this] show ?thesis
    by (simp add: session_get_def)
qed

lemma nth_session_get_same_wire:
  "same_wire w w' \<Longrightarrow> fst (nth_session_get cfg w' i) = fst (nth_session_get cfg w i)"
proof (induction i arbitrary: w w')
  case 0
  then show ?case by (simp add: session_get_same_wire)
next
  case (Suc i)
  from session_get_same_wire [OF Suc.prems, of cfg]
  have "same_wire (snd (session_get cfg w)) (snd (session_get cfg w'))" by simp
  from Suc.IH [OF this] show ?case by simp
qed

lemma same_wire_refl: "same_wire w w"
  by (simp add: same_wire_def)

lemma same_wire_trans: "same_wire w w' \<Longrightarrow> same_wire w' w'' \<Longrightarrow> same_wire w w''"
  by (simp add: same_wire_def)

subsection \<open>Retried and final attempts\<close>

lemma sleep_then_continue_ok2:
  assumes "0 \<le> backoff_base_seconds cfg" and "0 \<le> backoff_cap_seconds cfg"
    and "\<forall>n. 0 \<le> randoms w n"
  shows "\<exists>w'. sleep_then_continue (sleep_with_backoff cfg a h w) s le = Continue s w' le
            \<and> same_wire w w' \<and> attempts w' = attempts w \<and> randoms w' = randoms w"
  using sleep_with_backoff_ok [OF assms, of a h]
  by (auto simp: sleep_then_continue_def same_wire_def)

lemma attempt_body_retried_unrecorded:
  assumes "0 \<le> backoff_base_seconds cfg" and "0 \<le> backoff_cap_seconds cfg"
    and "\<forall>n. 0 \<le> randoms w n"
    and "retried_unrecorded (fst (session_get cfg w))"
    and "int k < max_retries cfg"
  shows "\<exists>s' w' le'. attempt_body cfg k s w le = Continue s' w' le'
            \<and> same_wire (snd (session_get cfg w)) w' \<and> attempts w' = Suc (attempts w)
            \<and> randoms w' = randoms w \<and> error_count s' = error_count s
            \<and> consecutive_failures s' = consecutive_failures s"
proof -
  obtain out w1 where g: "session_get cfg w = (out, w1)"
    by (cases "session_get cfg w")
  then have f: "attempts w1 = Suc (attempts w)" "randoms w1 = randoms w"
    using session_get_frame [of cfg w] by simp_all
  have r: "\<forall>n. 0 \<le> randoms w1 n" using assms(3) f by simp
  note st = sleep_then_continue_ok2 [OF assms(1,2) r, of k]
  show ?thesis
  proof (cases out)
    case (Raises e)
    then show ?thesis
      using g f st [of Absent s "Some (NetworkError e)"] assms(5)
      by (auto simp: attempt_body_def handle_request_exception_def)
  next
    case (Returns r)
    then have c: "status_code r = 429 \<or> (500 \<le> status_code r \<and> status_code r < 600)"
      using assms(4) g by (simp add: retried_unrecorded_def)
    show ?thesis
    proof (cases "status_code r = 429")
      case True
      then show ?thesis
        using Returns g f assms(5)
          st [of "float_reading (retry_after_header r)"
                 "s\<lparr>rate_limit_count := rate_limit_count s + 1\<rparr>" le]
        by (auto simp: attempt_body_def)
    next
      case False
      with c have b: "500 \<le> status_code r" "status_code r < 600" by simp_all
      show ?thesis
      proof (cases "status_code r \<in> {500, 502, 503, 504}")
        case True
        then show ?thesis
          using Returns g f assms(5) b False st [of Absent s le]
          by (auto simp: attempt_body_def)
      next
        case n: False
        then show ?thesis
          using Returns g f assms(5) b False st [of Absent s "Some (HTTPError (status_code r))"]
          by (auto simp: attempt_body_def raise_for_status_or_return_def
              raises_for_status_def handle_request_exception_def)
      qed
    qed
  qed
qed

lemma record_failure_twice:
  "\<exists>s' w'. (case record_failure cfg s w of (s1, w1) \<Rightarrow> record_failure cfg s1 w1) = (s', w')
      \<and> attempts w' = attempts w \<and> error_count s' = error_count s + 2
      \<and> consecutive_failures s' = consecutive_failures s + 2"
  by (simp add: record_failure_def time_time_def Let_def)

lemma attempt_body_4xx_final:
  assumes "fst (session_get cfg w) = Returns r"
    and "400 \<le> status_code r" and "status_code r < 500"
    and "\<not> int k < max_retries cfg"
  shows "\<exists>s' w'. attempt_body cfg k s w le = Finished (Inl (HTTPError (status_code r)), s', w')
            \<and> attempts w' = Suc (attempts w) \<and> error_count s' = error_count s + 2
            \<and> consecutive_failures s' = consecutive_failures s + 2"
proof -
  obtain w1 where g: "session_get cfg w = (Returns r, w1)"
    using assms(1) by (cases "session_get cfg w") simp
  then have f: "attempts w1 = Suc (attempts w)"
    using session_get_frame [of cfg w] by simp
  let ?s1 = "if status_code r = 429 then s\<lparr>rate_limit_count := rate_limit_count s + 1\<rparr> else s"
  from record_failure_twice [of cfg ?s1 w1]
  obtain s' w' where t: "(case record_failure cfg ?s1 w1 of (s1, w1) \<Rightarrow> record_failure cfg s1 w1)
      = (s', w')" "attempts w' = attempts w1" "error_count s' = error_count ?s1 + 2"
      "consecutive_failures s' = consecutive_failures ?s1 + 2"
    by auto
  have h: "raise_for_status_or_return cfg k r s2 w2
      = Finished (Inl (HTTPError (status_code r)), record_failure cfg s2 w2)" for s2 w2
    using assms
    by (cases "record_failure cfg s2 w2")
      (simp add: raise_for_status_or_return_def raises_for_status_def
        handle_request_exception_def)
  have "attempt_body cfg k s w le =
      (case record_failure cfg ?s1 w1 of (s2, w2) \<Rightarrow>
         Finished (Inl (HTTPError (status_code r)), record_failure cfg s2 w2))"
    using assms g by (simp add: attempt_body_def h Let_def split: prod.splits)
  with t f show ?thesis
    by (cases "record_failure cfg ?s1 w1") (auto split: if_splits)
qed

lemma get_loop_4xx_final:
  assumes "0 \<le> backoff_base_seconds cfg" and "0 \<le> backoff_cap_seconds cfg"
    and "0 \<le> max_retries cfg"
  shows "\<forall>n. 0 \<le> randoms w n \<Longrightarrow>
         \<forall>i<d. retried_unrecorded (fst (nth_session_get cfg w i)) \<Longrightarrow>
         fst (nth_session_get cfg w d) = Returns r \<Longrightarrow>
         400 \<le> status_code r \<Longrightarrow> status_code r < 500 \<Longrightarrow>
         k + d = nat (max_retries cfg) \<Longrightarrow>
         \<exists>s' w'. get_loop cfg [k..<Suc (nat (max_retries cfg))] s w le
                    = (Inl (HTTPError (status_code r)), s', w')
            \<and> attempts w' = attempts w + Suc d \<and> error_count s' = error_count s + 2
            \<and> consecutive_failures s' = consecutive_failures s + 2"
proof (induction d arbitrary: k s w le)
  case 0
  then have k: "k = nat (max_retries cfg)" by simp
  then have nk: "\<not> int k < max_retries cfg" using assms(3) by simp
  from 0(3) have r: "fst (session_get cfg w) = Returns r" by simp
  from attempt_body_4xx_final [OF r 0(4,5) nk, of s le]
  show ?case by (auto simp: k)
next
  case (Suc d)
  then have lt: "int k < max_retries cfg" by linarith
  from Suc.prems(2) have "retried_unrecorded (fst (nth_session_get cfg w 0))" by blast
  then have ru: "retried_unrecorded (fst (session_get cfg w))" by simp
  from attempt_body_retried_unrecorded [OF assms(1,2) Suc.prems(1) ru lt, of s le]
  obtain s1 w1 le1 where w1: "attempt_body cfg k s w le = Continue s1 w1 le1"
    "same_wire (snd (session_get cfg w)) w1" "attempts w1 = Suc (attempts w)"
    "randoms w1 = randoms w"
    "error_count s1 = error_count s" "consecutive_failures s1 = consecutive_failures s"
    by auto
  note inv = nth_session_get_same_wire [OF w1(2), of cfg]
  have a: "\<forall>n. 0 \<le> randoms w1 n" using Suc.prems(1) w1 by simp
  have b: "\<forall>i<d. retried_unrecorded (fst (nth_session_get cfg w1 i))"
  proof (intro allI impI)
    fix i assume "i < d"
    then have "Suc i < Suc d" by simp
    with Suc.prems(2) have "retried_unrecorded (fst (nth_session_get cfg w (Suc i)))" by blast
    then show "retried_unrecorded (fst (nth_session_get cfg w1 i))" using inv [of i] by simp
  qed
  have c: "fst (nth_session_get cfg w1 d) = Returns r"
    using Suc.prems(3) inv [of d] by simp
  have e: "Suc k + d = nat (max_retries cfg)" using Suc.prems(6) by simp
  from Suc.IH [OF a b c Suc.prems(4,5) e, of s1 le1]
  obtain s' w' where
    "get_loop cfg [Suc k..<Suc (nat (max_retries cfg))] s1 w1 le1
       = (Inl (HTTPError (status_code r)), s', w')"
    "attempts w' = attempts w1 + Suc d" "error_count s' = error_count s1 + 2"
    "consecutive_failures s' = consecutive_failures s1 + 2"
    by auto
  moreover have "[k..<Suc (nat (max_retries cfg))] = k # [Suc k..<Suc (nat (max_retries cfg))]"
    using Suc.prems(6) by (simp add: upt_conv_Cons)
  ultimately show ?case using w1 by simp
qed

lemma is_circuit_open_same_wire:
  "same_wire w (snd (snd (is_circuit_open cfg s w)))
   \<and> randoms (snd (snd (is_circuit_open cfg s w))) = randoms w
   \<and> attempts (snd (snd (is_circuit_open cfg s w))) = attempts w
   \<and> error_count (fst (snd (is_circuit_open cfg s w))) = error_count s"
  by (simp add: is_circuit_open_def time_time_def same_wire_def)

lemmas client_defs = get_def is_circuit_open_def py_range_def attempt_body_def session_get_def
  wire_send_def is_retry_def has_retry_after_def get_retry_after_def get_backoff_time_def
  sleep_backoff_def retry_sleep_def float_reading_def
  raise_for_status_or_return_def raises_for_status_def handle_request_exception_def
  sleep_then_continue_def sleep_with_backoff_def exponential_backoff_def random_uniform_def
  random_random_def time_sleep_def time_time_def record_failure_def record_success_def

lemmas input_defs = default_config_def init_client_def scripted_world_def plain_def
  rate_limited_def one_retry_config_def

subsection \<open>Retries\<close>

text \<open>
  Claim C1 (a 404 is not retried). The source means it so (\<open># Client errors - don't
  retry\<close>), but \<open>raise_for_status\<close> stands inside the \<open>try\<close> and its \<open>HTTPError\<close>
  is a \<open>RequestException\<close>: the second handler catches it and retries while attempts
  remain. With the default configuration and an upstream that answers every request
  with 404, \<open>get\<close> calls \<open>session.get\<close> six times, sleeps five times, and records seven
  failures before it raises.
\<close>

theorem not_found_is_retried:
  "fst (get default_config init_client (scripted_world [] (plain 404) 1)) = Inl (HTTPError 404)
   \<and> attempts (snd (snd (get default_config init_client (scripted_world [] (plain 404) 1)))) = 6
   \<and> sleeps (snd (snd (get default_config init_client (scripted_world [] (plain 404) 1))))
       = [3 / 4, 5 / 4, 9 / 4, 17 / 4, 33 / 4]
   \<and> error_count (fst (snd (get default_config init_client (scripted_world [] (plain 404) 1)))) = 7"
  by (simp add: client_defs input_defs upt_conv_Cons Let_def eval_nat_numeral)

subsection \<open>An upstream that always answers 503\<close>









subsection \<open>Backoff\<close>

text \<open>
  Claim C7 (bound on the sleep). Whatever the attempt index and the \<open>Retry-After\<close>
  header, every duration that one call of \<open>_sleep_with_backoff\<close> sleeps is at most
  \<open>backoff_cap_seconds + backoff_base_seconds\<close>. The base is not negative and
  \<open>random.random\<close> returns at most 1.
\<close>

theorem backoff_bound:
  assumes "0 \<le> backoff_base_seconds cfg" and "randoms w (draws w) \<le> 1"
  shows "\<exists>ds. sleeps (snd (sleep_with_backoff cfg attempt_index hdr w)) = sleeps w @ ds
            \<and> (\<forall>d\<in>set ds. d \<le> backoff_cap_seconds cfg + backoff_base_seconds cfg)"
proof -
  let ?d = "min (backoff_base_seconds cfg * 2 ^ attempt_index) (backoff_cap_seconds cfg)
            + backoff_base_seconds cfg * randoms w (draws w)"
  have "backoff_base_seconds cfg * randoms w (draws w) \<le> backoff_base_seconds cfg * 1"
    using assms by (intro mult_left_mono) simp_all
  then have d: "?d \<le> backoff_cap_seconds cfg + backoff_base_seconds cfg"
    by simp
  have e: "\<exists>ds. sleeps (snd (exponential_backoff cfg attempt_index w)) = sleeps w @ ds
            \<and> (\<forall>d\<in>set ds. d \<le> backoff_cap_seconds cfg + backoff_base_seconds cfg)"
  proof (cases "?d < 0")
    case True
    then show ?thesis
      by (simp add: exponential_backoff_def random_uniform_def random_random_def
          time_sleep_def Let_def)
  next
    case False
    then have "sleeps (snd (exponential_backoff cfg attempt_index w)) = sleeps w @ [?d]"
      by (simp add: exponential_backoff_def random_uniform_def random_random_def
          time_sleep_def Let_def)
    with d show ?thesis by simp
  qed
  show ?thesis
  proof (cases hdr)
    case (Seconds x)
    show ?thesis
    proof (cases "min x (backoff_cap_seconds cfg) < 0")
      case True
      with Seconds e show ?thesis
        by (simp add: sleep_with_backoff_def time_sleep_def Let_def)
    next
      case False
      then have "sleeps (snd (sleep_with_backoff cfg attempt_index hdr w))
          = sleeps w @ [min x (backoff_cap_seconds cfg)]"
        using Seconds by (simp add: sleep_with_backoff_def time_sleep_def Let_def)
      moreover have "min x (backoff_cap_seconds cfg)
          \<le> backoff_cap_seconds cfg + backoff_base_seconds cfg"
        using assms(1) by simp
      ultimately show ?thesis by simp
    qed
  qed (use e in \<open>simp_all add: sleep_with_backoff_def\<close>)
qed

theorem backoff_bound_witness:
  "\<exists>ds. sleeps (snd (sleep_with_backoff default_config 4 Absent
             (scripted_world [] (plain 503) 1))) = sleeps (scripted_world [] (plain 503) 1) @ ds
      \<and> (\<forall>d\<in>set ds. d \<le> 8 + 1 / 2)"
  using backoff_bound [of default_config "scripted_world [] (plain 503) 1" 4 Absent]
  by (simp add: input_defs)





subsection \<open>The circuit breaker\<close>

lemma record_failure_opens:
  assumes "circuit_breaker_threshold cfg \<le> consecutive_failures s + 1"
  shows "circuit_open (fst (record_failure cfg s w))"
  using assms by (simp add: record_failure_def time_time_def Let_def)

lemma record_failure_count:
  "consecutive_failures (fst (record_failure cfg s w)) = consecutive_failures s + 1"
  by (simp add: record_failure_def time_time_def Let_def)

lemma record_failures_open:
  "circuit_breaker_threshold cfg \<le> consecutive_failures s + int (Suc n) \<Longrightarrow>
   circuit_open (fst (record_failures cfg (Suc n) s w))"
proof (induction n arbitrary: s w)
  case 0
  then show ?case
    using record_failure_opens [of cfg s w]
    by (cases "record_failure cfg s w") simp
next
  case (Suc n)
  obtain s1 w1 where r: "record_failure cfg s w = (s1, w1)"
    by (cases "record_failure cfg s w")
  then have "consecutive_failures s1 = consecutive_failures s + 1"
    using record_failure_count [of cfg s w] by simp
  then have "circuit_breaker_threshold cfg \<le> consecutive_failures s1 + int (Suc n)"
    using Suc.prems by simp
  from Suc.IH [OF this, of w1] r show ?case by simp
qed

lemma get_blocked:
  assumes "circuit_open s"
    and "\<not> clock w (ticks w) - last_failure_time s > circuit_reset_timeout cfg"
  shows "get cfg s w = (Inl CircuitOpenError, s, w\<lparr>ticks := Suc (ticks w)\<rparr>)"
  using assms by (simp add: get_def is_circuit_open_def time_time_def)

lemma get_many_blocked:
  "circuit_open s \<Longrightarrow>
   \<forall>i<n. clock w (ticks w + i) - last_failure_time s < circuit_reset_timeout cfg \<Longrightarrow>
   get_many cfg n s w = (replicate n (Inl CircuitOpenError), s, w\<lparr>ticks := ticks w + n\<rparr>)"
proof (induction n arbitrary: w)
  case 0
  then show ?case by simp
next
  case (Suc n)
  let ?w1 = "w\<lparr>ticks := Suc (ticks w)\<rparr>"
  from Suc.prems(2) have "clock w (ticks w + 0) - last_failure_time s < circuit_reset_timeout cfg"
    by blast
  then have g: "get cfg s w = (Inl CircuitOpenError, s, ?w1)"
    using get_blocked [where s = s and w = w and cfg = cfg] Suc.prems(1) by simp
  have "\<forall>i<n. clock ?w1 (ticks ?w1 + i) - last_failure_time s < circuit_reset_timeout cfg"
  proof (intro allI impI)
    fix i assume "i < n"
    then have "Suc i < Suc n" by simp
    with Suc.prems(2) have "clock w (ticks w + Suc i) - last_failure_time s < circuit_reset_timeout cfg"
      by blast
    then show "clock ?w1 (ticks ?w1 + i) - last_failure_time s < circuit_reset_timeout cfg"
      by simp
  qed
  from Suc.IH [OF Suc.prems(1) this] g show ?case by simp
qed

text \<open>What does hold of the open breaker: after \<open>circuit_breaker_threshold\<close>
  consecutive recorded failures, every call of \<open>get\<close> that is issued less than
  \<open>circuit_reset_timeout\<close> seconds after \<open>last_failure_time\<close> raises the circuit-open
  error, leaves the client as it was and sends nothing.\<close>

lemma later_calls_are_blocked:
  assumes "1 \<le> circuit_breaker_threshold cfg" and "0 \<le> consecutive_failures s0"
    and "s = fst (record_failures cfg (nat (circuit_breaker_threshold cfg)) s0 w0)"
    and "\<forall>i<n. clock w (ticks w + i) - last_failure_time s < circuit_reset_timeout cfg"
  shows "get_many cfg n s w =
           (replicate n (Inl CircuitOpenError), s, w\<lparr>ticks := ticks w + n\<rparr>)"
proof -
  obtain k where k: "nat (circuit_breaker_threshold cfg) = Suc k"
    using assms(1) by (cases "nat (circuit_breaker_threshold cfg)") auto
  then have "circuit_breaker_threshold cfg \<le> consecutive_failures s0 + int (Suc k)"
    using assms(1,2) by linarith
  from record_failures_open [OF this, of w0] have "circuit_open s"
    using assms(3) k by simp
  from get_many_blocked [OF this assms(4)] show ?thesis .
qed

lemma five_failures_eq:
  "five_failures step =
     (\<lparr>consecutive_failures = 5, circuit_open = True, last_failure_time = step * 4,
       request_count = 0, error_count = 5, rate_limit_count = 0\<rparr>,
      (scripted_world [] (plain 200) step)\<lparr>ticks := 5\<rparr>)"
  by (simp add: five_failures_def eval_nat_numeral record_failure_def time_time_def
      input_defs Let_def)

lemma get_loop_append:
  "get_loop cfg (xs @ ys) s w le =
     (case run_attempts cfg xs s w le of
        Continue s1 w1 le1 \<Rightarrow> get_loop cfg ys s1 w1 le1
      | Finished res \<Rightarrow> res)"
  by (induction xs arbitrary: s w le) (simp_all split: control.splits)

lemma first_five_not_found:
  "run_attempts default_config [0, 1, 2, 3, 4] (init_client\<lparr>request_count := 1\<rparr>)
     (scripted_world [] (plain 404) 1) None
   = Continue
       \<lparr>consecutive_failures = 5, circuit_open = True, last_failure_time = 4,
        request_count = 1, error_count = 5, rate_limit_count = 0\<rparr>
       ((scripted_world [] (plain 404) 1)
          \<lparr>requests := 5, attempts := 5, draws := 5, ticks := 5,
           sleeps := [3 / 4, 5 / 4, 9 / 4, 17 / 4, 33 / 4]\<rparr>)
       (Some (HTTPError 404))"
  by (simp add: client_defs input_defs Let_def eval_nat_numeral)

text \<open>
  Claim C5 (no network call while the breaker is open). \<open>get\<close> reads the breaker once,
  before its loop. With the default client and an upstream that answers every request
  with 404, each of the first five iterations records a failure and is retried (the
  slip of claim C1); the fifth failure opens the breaker, and the loop goes on from
  that state to attempt index 5, which sends a sixth request. All the sleeps of the
  call together are shorter than \<open>circuit_reset_timeout\<close>.
\<close>

theorem open_breaker_is_not_reread:
  "run_attempts default_config [0, 1, 2, 3, 4] (init_client\<lparr>request_count := 1\<rparr>)
     (scripted_world [] (plain 404) 1) None
   = Continue
       \<lparr>consecutive_failures = 5, circuit_open = True, last_failure_time = 4,
        request_count = 1, error_count = 5, rate_limit_count = 0\<rparr>
       ((scripted_world [] (plain 404) 1)
          \<lparr>requests := 5, attempts := 5, draws := 5, ticks := 5,
           sleeps := [3 / 4, 5 / 4, 9 / 4, 17 / 4, 33 / 4]\<rparr>)
       (Some (HTTPError 404))
   \<and> get default_config init_client (scripted_world [] (plain 404) 1)
     = get_loop default_config [5]
         \<lparr>consecutive_failures = 5, circuit_open = True, last_failure_time = 4,
          request_count = 1, error_count = 5, rate_limit_count = 0\<rparr>
         ((scripted_world [] (plain 404) 1)
            \<lparr>requests := 5, attempts := 5, draws := 5, ticks := 5,
             sleeps := [3 / 4, 5 / 4, 9 / 4, 17 / 4, 33 / 4]\<rparr>)
         (Some (HTTPError 404))
   \<and> requests (snd (snd (get default_config init_client (scripted_world [] (plain 404) 1))))
       = 6
   \<and> sleeps (snd (snd (get default_config init_client (scripted_world [] (plain 404) 1))))
       = [3 / 4, 5 / 4, 9 / 4, 17 / 4, 33 / 4]
   \<and> 3 / 4 + 5 / 4 + 9 / 4 + 17 / 4 + 33 / 4 < circuit_reset_timeout default_config"
proof -
  let ?w = "scripted_world [] (plain 404) 1"
  have p: "py_range (max_retries default_config + 1) = [0, 1, 2, 3, 4] @ [5]"
    by (simp add: py_range_def default_config_def upt_conv_Cons eval_nat_numeral)
  have i: "is_circuit_open default_config init_client ?w = (False, init_client, ?w)"
    by (simp add: is_circuit_open_def init_client_def)
  have s0: "init_client\<lparr>request_count := request_count init_client + 1\<rparr>
      = init_client\<lparr>request_count := 1\<rparr>"
    by (simp add: init_client_def)
  have "get default_config init_client ?w
      = get_loop default_config ([0, 1, 2, 3, 4] @ [5]) (init_client\<lparr>request_count := 1\<rparr>)
          ?w None"
    by (simp only: get_def i p s0 prod.case bool.case)
  then have a: "get default_config init_client ?w
      = get_loop default_config [5]
         \<lparr>consecutive_failures = 5, circuit_open = True, last_failure_time = 4,
          request_count = 1, error_count = 5, rate_limit_count = 0\<rparr>
         (?w\<lparr>requests := 5, attempts := 5, draws := 5, ticks := 5,
             sleeps := [3 / 4, 5 / 4, 9 / 4, 17 / 4, 33 / 4]\<rparr>)
         (Some (HTTPError 404))"
    by (simp only: get_loop_append first_five_not_found control.case)
  have b: "requests (snd (snd (get default_config init_client ?w))) = 6
      \<and> sleeps (snd (snd (get default_config init_client ?w)))
          = [3 / 4, 5 / 4, 9 / 4, 17 / 4, 33 / 4]"
    by (simp add: client_defs input_defs upt_conv_Cons Let_def eval_nat_numeral)
  have c: "(3::real) / 4 + 5 / 4 + 9 / 4 + 17 / 4 + 33 / 4
      < circuit_reset_timeout default_config"
    by (simp add: default_config_def)
  from first_five_not_found a b c show ?thesis by blast
qed

text \<open>
  Claim C6 (lazy reset). With the breaker open and more than \<open>circuit_reset_timeout\<close>
  seconds between \<open>last_failure_time\<close> and the clock reading of the call, the breaker
  check answers "closed" and at that moment sets \<open>circuit_open\<close> to false and
  \<open>consecutive_failures\<close> to 0; \<open>get\<close> then runs its request loop from that state,
  does not raise the circuit-open error whatever the upstream answers, and (unless
  \<open>max_retries\<close> is negative) calls \<open>session.get\<close> at least once. The client changes
  only in the methods modelled here: nothing but a call resets the breaker.
\<close>

theorem lazy_reset:
  assumes "circuit_open s"
    and "clock w (ticks w) - last_failure_time s > circuit_reset_timeout cfg"
  shows "is_circuit_open cfg s w =
           (False, s\<lparr>circuit_open := False, consecutive_failures := 0\<rparr>,
            w\<lparr>ticks := Suc (ticks w)\<rparr>)
       \<and> get cfg s w =
           get_loop cfg (py_range (max_retries cfg + 1))
             (s\<lparr>circuit_open := False, consecutive_failures := 0,
                request_count := request_count s + 1\<rparr>)
             (w\<lparr>ticks := Suc (ticks w)\<rparr>) None
       \<and> fst (get cfg s w) \<noteq> Inl CircuitOpenError
       \<and> (0 \<le> max_retries cfg \<longrightarrow> attempts w < attempts (snd (snd (get cfg s w))))"
proof -
  let ?s1 = "s\<lparr>circuit_open := False, consecutive_failures := 0\<rparr>"
  let ?w1 = "w\<lparr>ticks := Suc (ticks w)\<rparr>"
  have i: "is_circuit_open cfg s w = (False, ?s1, ?w1)"
    using assms by (simp add: is_circuit_open_def time_time_def)
  then have g: "get cfg s w =
      get_loop cfg (py_range (max_retries cfg + 1))
        (?s1\<lparr>request_count := request_count s + 1\<rparr>) ?w1 None"
    by (simp add: get_def)
  have l: "fst (get cfg s w) \<noteq> Inl CircuitOpenError
      \<and> attempts ?w1 + (if py_range (max_retries cfg + 1) = [] then 0 else 1)
          \<le> attempts (snd (snd (get cfg s w)))"
    unfolding g by (rule get_loop_attempts) simp
  have "0 \<le> max_retries cfg \<Longrightarrow> py_range (max_retries cfg + 1) \<noteq> []"
    by (simp add: py_range_def)
  with i g l show ?thesis by auto
qed

theorem lazy_reset_witness:
  "fst (is_circuit_open default_config (fst (five_failures 100)) (snd (five_failures 100)))
     = False
   \<and> fst (get default_config (fst (five_failures 100)) (snd (five_failures 100)))
       \<noteq> Inl CircuitOpenError
   \<and> attempts (snd (five_failures 100))
       < attempts (snd (snd (get default_config (fst (five_failures 100))
                               (snd (five_failures 100)))))"
proof -
  have a: "circuit_open (fst (five_failures 100))"
    by (simp add: five_failures_eq)
  have b: "clock (snd (five_failures 100)) (ticks (snd (five_failures 100)))
             - last_failure_time (fst (five_failures 100))
           > circuit_reset_timeout default_config"
    by (simp add: five_failures_eq scripted_world_def default_config_def)
  have c: "0 \<le> max_retries default_config"
    by (simp add: default_config_def)
  note r = lazy_reset [OF a b]
  from r have "fst (is_circuit_open default_config (fst (five_failures 100))
                     (snd (five_failures 100))) = False"
    by simp
  moreover from r have "fst (get default_config (fst (five_failures 100))
                              (snd (five_failures 100))) \<noteq> Inl CircuitOpenError"
    by blast
  moreover from r c have "attempts (snd (five_failures 100))
       < attempts (snd (snd (get default_config (fst (five_failures 100))
                               (snd (five_failures 100)))))"
    by blast
  ultimately show ?thesis by blast
qed

subsection \<open>Double recording\<close>

text \<open>
  Claim C10 (a final 4xx is recorded twice), as the code has it. Take a call of \<open>get\<close>
  that passes the breaker check, whose attempts before the last one each end in an
  exception of \<open>session.get\<close>, a 429 or a 5xx response, and whose last attempt (index
  \<open>max_retries\<close>) receives a 4xx response, 429 included. Then \<open>_record_failure\<close> runs
  twice, both times at the last attempt: \<open>error_count\<close> grows by 2 over the call, and
  \<open>consecutive_failures\<close> by 2 over its value after the breaker check.
\<close>

theorem double_record_final_4xx:
  assumes "0 \<le> max_retries cfg"
    and "0 \<le> backoff_base_seconds cfg" and "0 \<le> backoff_cap_seconds cfg"
    and "\<forall>n. 0 \<le> randoms w n"
    and "fst (is_circuit_open cfg s w) = False"
    and "\<forall>i<nat (max_retries cfg). retried_unrecorded (fst (nth_session_get cfg w i))"
    and "fst (nth_session_get cfg w (nat (max_retries cfg))) = Returns r"
    and "400 \<le> status_code r" and "status_code r < 500"
  shows "fst (get cfg s w) = Inl (HTTPError (status_code r))
       \<and> error_count (fst (snd (get cfg s w))) = error_count s + 2
       \<and> consecutive_failures (fst (snd (get cfg s w)))
           = consecutive_failures (fst (snd (is_circuit_open cfg s w))) + 2"
proof -
  obtain s1 w1 where i: "is_circuit_open cfg s w = (False, s1, w1)"
    using assms(5) by (cases "is_circuit_open cfg s w") auto
  then have f: "same_wire w w1" "randoms w1 = randoms w" "error_count s1 = error_count s"
    using is_circuit_open_same_wire [of w cfg s] by simp_all
  note inv = nth_session_get_same_wire [OF f(1), of cfg]
  let ?s2 = "s1\<lparr>request_count := request_count s1 + 1\<rparr>"
  have a: "\<forall>n. 0 \<le> randoms w1 n" using assms(4) f by simp
  have b: "\<forall>i<nat (max_retries cfg). retried_unrecorded (fst (nth_session_get cfg w1 i))"
    using assms(6) inv by simp
  have c: "fst (nth_session_get cfg w1 (nat (max_retries cfg))) = Returns r"
    using assms(7) inv by simp
  have "0 + nat (max_retries cfg) = nat (max_retries cfg)" by simp
  from get_loop_4xx_final [OF assms(2,3,1) a b c assms(8,9) this, of ?s2 None]
  obtain s' w' where
    "get_loop cfg [0..<Suc (nat (max_retries cfg))] ?s2 w1 None
       = (Inl (HTTPError (status_code r)), s', w')"
    "error_count s' = error_count ?s2 + 2"
    "consecutive_failures s' = consecutive_failures ?s2 + 2"
    by auto
  moreover have "nat (max_retries cfg + 1) = Suc (nat (max_retries cfg))"
    using assms(1) by simp
  ultimately show ?thesis
    using i f by (simp add: get_def py_range_def)
qed

theorem double_record_final_4xx_witness:
  "fst (get one_retry_config init_client (scripted_world [plain 503, plain 503] (plain 404) 1))
     = Inl (HTTPError 404)
   \<and> error_count (fst (snd (get one_retry_config init_client
                              (scripted_world [plain 503, plain 503] (plain 404) 1)))) = 2
   \<and> consecutive_failures (fst (snd (get one_retry_config init_client
                              (scripted_world [plain 503, plain 503] (plain 404) 1)))) = 2"
proof -
  let ?w = "scripted_world [plain 503, plain 503] (plain 404) 1"
  have n: "nat (max_retries one_retry_config) = Suc 0"
    by (simp add: input_defs)
  have a: "\<forall>i<nat (max_retries one_retry_config).
             retried_unrecorded (fst (nth_session_get one_retry_config ?w i))"
    unfolding n by (simp add: client_defs input_defs retried_unrecorded_def Let_def)
  have b: "fst (nth_session_get one_retry_config ?w (nat (max_retries one_retry_config)))
      = Returns \<lparr>status_code = 404, retry_after_header = Missing\<rparr>"
    unfolding n by (simp add: client_defs input_defs Let_def)
  have c: "fst (is_circuit_open one_retry_config init_client ?w) = False"
    by (simp add: is_circuit_open_def input_defs)
  have d: "\<forall>n. 0 \<le> randoms ?w n" by (simp add: input_defs)
  from double_record_final_4xx [of one_retry_config ?w init_client, OF _ _ _ d c a b]
  show ?thesis
    by (simp add: is_circuit_open_def input_defs)
qed

text \<open>
  Claim C10 as stated, for every call whose last attempt receives a 4xx response, fails
  when an earlier attempt received one too: with one retry and an upstream that always
  answers 404, the first attempt records one failure and the last one two, three in all.
\<close>

theorem double_record_counterexample:
  "error_count (fst (snd (get one_retry_config init_client (scripted_world [] (plain 404) 1))))
     = error_count init_client + 3
   \<and> consecutive_failures (fst (snd (get one_retry_config init_client
                                       (scripted_world [] (plain 404) 1))))
     = consecutive_failures init_client + 3"
  by (simp add: client_defs input_defs upt_conv_Cons Let_def)

section \<open>Properties of the cache\<close>

lemma cache_fold_evict: "cache (fold evict ks c) = fold AList.delete ks (cache c)"
  by (induction ks arbitrary: c) (simp_all add: evict_def)

lemma map_of_fold_delete:
  "map_of (fold AList.delete ks al) k = (if k \<in> set ks then None else map_of al k)"
  by (induction ks arbitrary: al) (auto simp: delete_conv')

lemma distinct_fold_delete:
  "distinct (map fst al) \<Longrightarrow> distinct (map fst (fold AList.delete ks al))"
  by (induction ks arbitrary: al) (simp_all add: distinct_delete)

lemma expired_key_iff:
  assumes "distinct (map fst al)"
  shows "k \<in> set (map fst (filter (\<lambda>(key, e). is_expired t e) al))
         \<longleftrightarrow> (\<exists>e. map_of al k = Some e \<and> is_expired t e)"
  using assms by (force simp: map_of_eq_Some_iff)

lemma lookup_cleanup_expired:
  assumes "distinct (map fst (cache c))"
  shows "map_of (cache (cleanup_expired t c)) k =
           (case map_of (cache c) k of
              None \<Rightarrow> None
            | Some e \<Rightarrow> if is_expired t e then None else Some e)"
  using expired_key_iff [OF assms, of k t]
  by (auto simp: cleanup_expired_def cache_fold_evict map_of_fold_delete split: option.splits)

lemma distinct_cleanup_expired:
  "distinct (map fst (cache c)) \<Longrightarrow> distinct (map fst (cache (cleanup_expired t c)))"
  by (simp add: cleanup_expired_def cache_fold_evict distinct_fold_delete)

lemma lookup_sweeps_at:
  "distinct (map fst (cache c)) \<Longrightarrow>
   map_of (cache (sweeps_at ts c)) k =
     (case map_of (cache c) k of
        None \<Rightarrow> None
      | Some e \<Rightarrow> if \<exists>t\<in>set ts. is_expired t e then None else Some e)
   \<and> distinct (map fst (cache (sweeps_at ts c)))"
proof (induction ts arbitrary: c)
  case Nil
  then show ?case by (simp add: sweeps_at_def split: option.splits)
next
  case (Cons t ts)
  have d: "distinct (map fst (cache (cleanup_expired t c)))"
    using Cons.prems by (rule distinct_cleanup_expired)
  have s: "sweeps_at (t # ts) c = sweeps_at ts (cleanup_expired t c)"
    by (simp add: sweeps_at_def)
  from Cons.IH [OF d] show ?case
    unfolding s by (auto simp: lookup_cleanup_expired [OF Cons.prems] split: option.splits)
qed

lemma fst_cache_get:
  assumes "distinct (map fst (cache c))"
  shows "fst (cache_get now k c) =
           (case map_of (cache c) k of
              None \<Rightarrow> None
            | Some e \<Rightarrow> if is_expired now e then None else Some (stored e))"
  by (auto simp: cache_get_def Let_def lookup_cleanup_expired [OF assms] split: option.splits)

lemma lookup_cache_set:
  "map_of (cache (cache_set t0 k v ttl c)) k =
     Some \<lparr>stored = v, expires_at = t0 + real_of_int (ttl_or_default ttl c), created_at = t0\<rparr>"
  by (simp add: cache_set_def Let_def update_conv')

lemma distinct_cache_set:
  "distinct (map fst (cache c)) \<Longrightarrow> distinct (map fst (cache (cache_set t0 k v ttl c)))"
  by (simp add: cache_set_def Let_def distinct_update)

text \<open>
  Claim C3 (TTL correctness). After \<open>set\<close> has stored \<open>v\<close> under \<open>key\<close> at the instant
  \<open>t0\<close>, the entry expires at \<open>t0 + ttl\<close>. A later \<open>get\<close> of that key at the instant
  \<open>now\<close> returns \<open>v\<close> when \<open>now \<le> expires_at\<close> and nothing when \<open>now > expires_at\<close>, whether
  or not sweeps have run in between, at any instants \<open>ts\<close> up to \<open>now\<close>.
\<close>

theorem ttl_correctness:
  assumes "distinct (map fst (cache c))" and "\<forall>t\<in>set ts. t \<le> now"
  shows "fst (cache_get now key (sweeps_at ts (cache_set t0 key v ttl c))) =
           (if now \<le> t0 + real_of_int (ttl_or_default ttl c) then Some v else None)"
proof -
  let ?c1 = "cache_set t0 key v ttl c"
  let ?e = "\<lparr>stored = v, expires_at = t0 + real_of_int (ttl_or_default ttl c), created_at = t0\<rparr>"
  have d1: "distinct (map fst (cache ?c1))"
    using assms(1) by (rule distinct_cache_set)
  note sw = lookup_sweeps_at [OF d1, of ts key]
  have l: "map_of (cache (sweeps_at ts ?c1)) key
      = (if \<exists>t\<in>set ts. is_expired t ?e then None else Some ?e)"
    using sw by (simp add: lookup_cache_set)
  have g: "fst (cache_get now key (sweeps_at ts ?c1)) =
      (case map_of (cache (sweeps_at ts ?c1)) key of
         None \<Rightarrow> None
       | Some e \<Rightarrow> if is_expired now e then None else Some (stored e))"
    using sw by (intro fst_cache_get) simp
  show ?thesis
  proof (cases "now \<le> t0 + real_of_int (ttl_or_default ttl c)")
    case True
    then have "\<not> (\<exists>t\<in>set ts. is_expired t ?e)"
      using assms(2) by (fastforce simp: is_expired_def)
    with True show ?thesis
      unfolding g l by (simp add: is_expired_def)
  next
    case False
    then show ?thesis
      unfolding g l by (simp add: is_expired_def)
  qed
qed

theorem ttl_correctness_witness:
  "fst (cache_get 50 ''k'' (sweeps_at [20, 40] (cache_set 10 ''k'' (7::nat) (Some 60)
          (new_cache 3600)))) = Some 7
   \<and> fst (cache_get 71 ''k'' (sweeps_at [20, 40] (cache_set 10 ''k'' (7::nat) (Some 60)
          (new_cache 3600)))) = None"
  using ttl_correctness [where c = "new_cache 3600" and ts = "[20, 40]" and now = 50
      and ?t0.0 = 10 and key = "''k''" and v = "7::nat" and ttl = "Some 60"]
    ttl_correctness [where c = "new_cache 3600" and ts = "[20, 40]" and now = 71
      and ?t0.0 = 10 and key = "''k''" and v = "7::nat" and ttl = "Some 60"]
  by (simp add: new_cache_def ttl_or_default_def)

text \<open>
  Claim C9 (a TTL of 0). \<open>set\<close> with \<open>ttl_seconds = 0\<close> does what \<open>set\<close> without a TTL
  does: the entry is stored with the default TTL of the cache, and a \<open>get\<close> at any
  instant up to \<open>t0 + default_ttl_seconds\<close>, the instant of the \<open>set\<close> among them when
  the default is not negative, returns the value.
\<close>

theorem zero_ttl_is_default:
  assumes "distinct (map fst (cache c))"
    and "now \<le> t0 + real_of_int (default_ttl_seconds c)"
  shows "cache_set t0 key v (Some 0) c = cache_set t0 key v None c
       \<and> map_of (cache (cache_set t0 key v (Some 0) c)) key =
           Some \<lparr>stored = v, expires_at = t0 + real_of_int (default_ttl_seconds c),
                 created_at = t0\<rparr>
       \<and> fst (cache_get now key (cache_set t0 key v (Some 0) c)) = Some v"
proof -
  let ?c1 = "cache_set t0 key v (Some 0) c"
  have d1: "distinct (map fst (cache ?c1))"
    using assms(1) by (rule distinct_cache_set)
  have t: "ttl_or_default (Some 0) c = default_ttl_seconds c"
    by (simp add: ttl_or_default_def)
  have a: "cache_set t0 key v (Some 0) c = cache_set t0 key v None c"
    by (simp add: cache_set_def ttl_or_default_def)
  have b: "map_of (cache ?c1) key =
      Some \<lparr>stored = v, expires_at = t0 + real_of_int (default_ttl_seconds c), created_at = t0\<rparr>"
    by (simp only: lookup_cache_set t)
  have "fst (cache_get now key ?c1) = Some v"
    using assms(2) by (simp add: fst_cache_get [OF d1] b is_expired_def)
  with a b show ?thesis by blast
qed

theorem zero_ttl_is_default_witness:
  "fst (cache_get 10 ''k'' (cache_set 10 ''k'' (7::nat) (Some 0) (new_cache 1800))) = Some 7
   \<and> map_of (cache (cache_set 10 ''k'' (7::nat) (Some 0) (new_cache 1800))) ''k''
       = Some \<lparr>stored = 7, expires_at = 1810, created_at = 10\<rparr>"
  using zero_ttl_is_default [where c = "new_cache 1800" and now = 10 and ?t0.0 = 10
      and key = "''k''" and v = "7::nat", THEN conjunct2]
  by (simp add: new_cache_def)

text \<open>
  Claim C8 (frame of \<open>invalidate_player\<close>). The stats, market, league and search
  caches are the same records after the call, entries and counters alike. Of the player
  cache only the dictionary changes, and in it only the key derived from the player id,
  which is absent afterwards.
\<close>

theorem invalidate_player_frame:
  "stats_cache (invalidate_player digest player_id sc) = stats_cache sc
   \<and> market_cache (invalidate_player digest player_id sc) = market_cache sc
   \<and> league_cache (invalidate_player digest player_id sc) = league_cache sc
   \<and> search_cache (invalidate_player digest player_id sc) = search_cache sc
   \<and> player_cache (invalidate_player digest player_id sc) =
       (player_cache sc)\<lparr>cache :=
          AList.delete (make_key digest ''player'' [str_int player_id]) (cache (player_cache sc))\<rparr>
   \<and> map_of (cache (player_cache (invalidate_player digest player_id sc))) =
       (map_of (cache (player_cache sc)))(make_key digest ''player'' [str_int player_id] := None)"
proof -
  let ?k = "make_key digest ''player'' [str_int player_id]"
  let ?c = "player_cache sc"
  have "snd (cache_delete ?k ?c) = ?c\<lparr>cache := AList.delete ?k (cache ?c)\<rparr>"
    by (simp add: cache_delete_def)
  then show ?thesis
    by (simp add: invalidate_player_def delete_conv')
qed

theorem invalidate_player_frame_witness:
  "stats_cache (invalidate_player id 7 (set_player id 0 7 (1::nat) new_smart_cache))
     = new_cache 3600
   \<and> cache (player_cache (invalidate_player id 7 (set_player id 0 7 (1::nat) new_smart_cache)))
     = []"
  using invalidate_player_frame [where digest = id and player_id = 7
      and sc = "set_player id 0 7 (1::nat) new_smart_cache"]
  by (simp add: set_player_def new_smart_cache_def new_cache_def cache_set_def Let_def)

end
